theory Spec2Isabelle
  imports Complex_Main "HOL-Library.Word"
begin

section \<open>Shared value types\<close>

text \<open>
  A \<open>gocv.Mat\<close> is opaque to the program: it is either a matrix without pixels (the zero
  value of the struct that \<open>make([]gocv.Mat, n)\<close> fills a slice with, and what
  \<open>Mat.Empty()\<close> reports) or a decoded picture.
\<close>

datatype 'p Mat = EmptyMat | Frame 'p

text \<open>
  \<open>float64\<close> with the special values the audio code depends on.  Finite values carry a
  real number: rounding, overflow of finite results and the sign of zero are not modelled.
\<close>

datatype float64 = NaN | NegInf | PosInf | Fin real

text \<open>
  Every error the video code returns, and the run-time panic of an index out of range
  (index, length).
\<close>

datatype error =
    NotFullError nat nat
  | CreateWriterError
  | WriteFrameError nat
  | IndexOutOfRange nat nat

section \<open>VideoFrameBuffer (video.go)\<close>

record 'p VideoFrameBuffer =
  frames :: "'p Mat list"
  idx :: nat

text \<open>
  \<open>NewVideoFrameBuffer(maxFrames)\<close>: a slice of \<open>maxFrames\<close> zero-valued Mats and
  \<open>idx = 0\<close>.  The length is a \<open>nat\<close>: a negative \<open>maxFrames\<close> makes \<open>make\<close> panic
  before any buffer exists.
\<close>

definition NewVideoFrameBuffer :: "nat \<Rightarrow> 'p VideoFrameBuffer" where
  "NewVideoFrameBuffer maxFrames = \<lparr>frames = replicate maxFrames EmptyMat, idx = 0\<rparr>"

definition Full :: "'p VideoFrameBuffer \<Rightarrow> bool" where
  "Full v = (idx v = length (frames v))"

text \<open>
  \<open>Append\<close>: below the length, store at \<open>idx\<close> and advance it; otherwise close
  \<open>frames[0]\<close> and re-slice to \<open>append(frames[1:], frame)\<close>.  Indexing
  \<open>frames[0]\<close> of an empty slice panics.  \<open>Close\<close> releases the picture held by the
  evicted Mat and leaves the slice as it is.
\<close>

definition Append :: "'p VideoFrameBuffer \<Rightarrow> 'p Mat \<Rightarrow> error + 'p VideoFrameBuffer" where
  "Append v frame =
     (if idx v < length (frames v)
      then Inr (v\<lparr>frames := (frames v)[idx v := frame], idx := idx v + 1\<rparr>)
      else if frames v = [] then Inl (IndexOutOfRange 0 0)
      else Inr (v\<lparr>frames := tl (frames v) @ [frame]\<rparr>))"

text \<open>The capture loop calls \<open>Append\<close> once per frame read; a panic ends the run.\<close>

fun appends :: "'p VideoFrameBuffer \<Rightarrow> 'p Mat list \<Rightarrow> error + 'p VideoFrameBuffer" where
  "appends v [] = Inr v"
| "appends v (f # fs) = (case Append v f of Inl e \<Rightarrow> Inl e | Inr v' \<Rightarrow> appends v' fs)"

text \<open>The closed form of the buffer after appending \<open>fs\<close> to a fresh buffer of capacity \<open>N\<close>.\<close>

definition after_appends :: "nat \<Rightarrow> 'p Mat list \<Rightarrow> 'p VideoFrameBuffer" where
  "after_appends N fs =
     (if length fs < N
      then \<lparr>frames = fs @ replicate (N - length fs) EmptyMat, idx = length fs\<rparr>
      else \<lparr>frames = drop (length fs - N) fs, idx = N\<rparr>)"

subsection \<open>Clip storage\<close>

text \<open>
  The video writer is a collaborator (gocv): \<open>VideoWriterFile\<close> may refuse to create a
  file, and \<open>Write\<close> may refuse a frame.  Both answers are parameters.  A created file
  holds the codec, the rate and geometry it was created with, and the frames written so far.
\<close>

record 'p VideoWriterEnv =
  creatable :: "string \<Rightarrow> bool"
  writable :: "'p Mat \<Rightarrow> bool"

record 'p ClipFile =
  clip_codec :: string
  clip_fps :: float64
  clip_width :: int
  clip_height :: int
  written :: "'p Mat list"

type_synonym 'p disk = "string \<Rightarrow> 'p ClipFile option"

text \<open>
  The loop \<open>for idx, frame := range v.frames\<close> of \<open>Save\<close>: write each frame in slice
  order, stop at the first write error.  Returns the error (if any) and the frames written.
\<close>

fun write_frames ::
  "('p Mat \<Rightarrow> bool) \<Rightarrow> nat \<Rightarrow> 'p Mat list \<Rightarrow> 'p Mat list \<Rightarrow> error option \<times> 'p Mat list" where
  "write_frames ok i [] out = (None, out)"
| "write_frames ok i (f # fs) out =
     (if ok f then write_frames ok (i + 1) fs (out @ [f])
      else (Some (WriteFrameError i), out))"

text \<open>
  \<open>Save\<close>: the returned error (\<open>None\<close> is Go's \<open>nil\<close>) and the disk afterwards.  A buffer
  that is not full returns before the writer is created.
\<close>

definition Save ::
  "'p VideoWriterEnv \<Rightarrow> 'p VideoFrameBuffer \<Rightarrow> string \<Rightarrow> int \<Rightarrow> int \<Rightarrow> float64 \<Rightarrow> 'p disk
     \<Rightarrow> error option \<times> 'p disk" where
  "Save env v file width height fps d =
     (if \<not> Full v then (Some (NotFullError (idx v) (length (frames v))), d)
      else if \<not> creatable env file then (Some CreateWriterError, d)
      else (case write_frames (writable env) 0 (frames v) [] of
              (err, out) \<Rightarrow>
                (err, d(file \<mapsto> \<lparr>clip_codec = ''MJPG'', clip_fps = fps, clip_width = width,
                                 clip_height = height, written = out\<rparr>))))"

section \<open>Floating point and time (Go run time)\<close>

text \<open>
  The operations of \<open>float64\<close> that the audio code uses, with the IEEE 754 rules for NaN and
  the infinities.  A zero divisor counts as positive zero.
\<close>

definition signed_inf :: "bool \<Rightarrow> float64" where
  "signed_inf positive = (if positive then PosInf else NegInf)"

fun fadd :: "float64 \<Rightarrow> float64 \<Rightarrow> float64" where
  "fadd (Fin a) (Fin b) = Fin (a + b)"
| "fadd NaN _ = NaN"
| "fadd _ NaN = NaN"
| "fadd PosInf NegInf = NaN"
| "fadd NegInf PosInf = NaN"
| "fadd PosInf _ = PosInf"
| "fadd _ PosInf = PosInf"
| "fadd NegInf _ = NegInf"
| "fadd _ NegInf = NegInf"

fun fmul :: "float64 \<Rightarrow> float64 \<Rightarrow> float64" where
  "fmul (Fin a) (Fin b) = Fin (a * b)"
| "fmul NaN _ = NaN"
| "fmul _ NaN = NaN"
| "fmul (Fin a) PosInf = (if a = 0 then NaN else signed_inf (0 < a))"
| "fmul (Fin a) NegInf = (if a = 0 then NaN else signed_inf (a < 0))"
| "fmul PosInf (Fin b) = (if b = 0 then NaN else signed_inf (0 < b))"
| "fmul NegInf (Fin b) = (if b = 0 then NaN else signed_inf (b < 0))"
| "fmul PosInf PosInf = PosInf"
| "fmul NegInf NegInf = PosInf"
| "fmul PosInf NegInf = NegInf"
| "fmul NegInf PosInf = NegInf"

fun fdiv :: "float64 \<Rightarrow> float64 \<Rightarrow> float64" where
  "fdiv (Fin a) (Fin b) =
     (if b = 0 then (if a = 0 then NaN else signed_inf (0 < a)) else Fin (a / b))"
| "fdiv NaN _ = NaN"
| "fdiv _ NaN = NaN"
| "fdiv (Fin a) _ = Fin 0"
| "fdiv PosInf (Fin b) = signed_inf (0 \<le> b)"
| "fdiv NegInf (Fin b) = signed_inf (b < 0)"
| "fdiv _ _ = NaN"

text \<open>\<open>math.Sqrt\<close> and \<open>math.Log10\<close>, special cases as documented by package \<open>math\<close>.\<close>

fun fsqrt :: "float64 \<Rightarrow> float64" where
  "fsqrt (Fin a) = (if a < 0 then NaN else Fin (sqrt a))"
| "fsqrt PosInf = PosInf"
| "fsqrt _ = NaN"

fun flog10 :: "float64 \<Rightarrow> float64" where
  "flog10 (Fin a) = (if a < 0 then NaN else if a = 0 then NegInf else Fin (log 10 a))"
| "flog10 PosInf = PosInf"
| "flog10 _ = NaN"

text \<open>The comparisons \<open>==\<close> and \<open>>\<close>: false whenever an operand is NaN.\<close>

fun feq :: "float64 \<Rightarrow> float64 \<Rightarrow> bool" where
  "feq NaN _ = False"
| "feq _ NaN = False"
| "feq x y = (x = y)"

fun fgt :: "float64 \<Rightarrow> float64 \<Rightarrow> bool" where
  "fgt (Fin a) (Fin b) = (b < a)"
| "fgt NaN _ = False"
| "fgt _ NaN = False"
| "fgt PosInf y = (y \<noteq> PosInf)"
| "fgt x NegInf = (x \<noteq> NegInf)"
| "fgt _ _ = False"

text \<open>
  \<open>time.Duration\<close> is a signed 64-bit count of nanoseconds.  A \<open>time.Time\<close> is an instant
  in nanoseconds after the zero Time; its range exceeds that of a Duration by far and is
  taken as unbounded.  \<open>Sub\<close> saturates at the largest and smallest Duration, \<open>Sleep\<close>
  returns at once for a zero or negative Duration.
\<close>

type_synonym Duration = "64 word"
type_synonym Time = int

definition maxDuration :: int where
  "maxDuration = 2 ^ 63 - 1"

definition minDuration :: int where
  "minDuration = - (2 ^ 63)"

definition time_Add :: "Time \<Rightarrow> Duration \<Rightarrow> Time" where
  "time_Add t d = t + sint d"

definition time_After :: "Time \<Rightarrow> Time \<Rightarrow> bool" where
  "time_After t u = (u < t)"

definition time_Sub :: "Time \<Rightarrow> Time \<Rightarrow> Duration" where
  "time_Sub t u =
     (if t - u > maxDuration then word_of_int maxDuration
      else if t - u < minDuration then word_of_int minDuration
      else word_of_int (t - u))"

text \<open>\<open>time.Since(t)\<close> is \<open>time.Now().Sub(t)\<close>; the reading of the clock is a parameter.\<close>

definition time_Since :: "Time \<Rightarrow> Time \<Rightarrow> Duration" where
  "time_Since now t = time_Sub now t"

text \<open>The earliest instant at which \<open>time.Sleep(d)\<close>, called at \<open>now\<close>, returns.\<close>

definition time_Sleep :: "Time \<Rightarrow> Duration \<Rightarrow> Time" where
  "time_Sleep now d = (if sint d \<le> 0 then now else now + sint d)"

section \<open>Audio detection (audio.go, the revision with \<open>minDetectionInterval\<close>)\<close>

record Detection =
  Decibel :: float64
  DetectionTime :: Time

record Audio =
  decibleThreshold :: float64

text \<open>
  The loop of \<open>calculateRMS\<close> that adds up the squares; \<open>acc\<close> is the variable \<open>sum\<close>.
\<close>

fun sum_squares :: "float64 \<Rightarrow> float64 list \<Rightarrow> float64" where
  "sum_squares acc [] = acc"
| "sum_squares acc (sample # samples) = sum_squares (fadd acc (fmul sample sample)) samples"

definition calculateRMS :: "float64 list \<Rightarrow> float64" where
  "calculateRMS samples =
     (let acc = sum_squares (Fin 0) samples;
          mean = fdiv acc (Fin (real (length samples)))
      in fsqrt mean)"

definition referenceLevel :: float64 where
  "referenceLevel = Fin 32768"

definition calculateDecibels :: "float64 list \<Rightarrow> float64" where
  "calculateDecibels signal =
     (let rms = calculateRMS signal
      in if feq rms (Fin 0) then NegInf
         else fmul (Fin 20) (flog10 (fdiv rms referenceLevel)))"

text \<open>
  One tick of the detection loop of \<open>StartDetection\<close>.  The tick sees the rolling window
  \<open>bite\<close>; \<open>time.Now()\<close> is called up to three times, for the re-trigger test, for
  \<open>lastDetection\<close> and for the Detection's time stamp, and the three readings are given with
  the tick.  The result is the new \<open>lastDetection\<close> and the Detection sent, if any.
\<close>

record Tick =
  bite :: "float64 list"
  now1 :: Time
  now2 :: Time
  now3 :: Time

definition detect_tick :: "Audio \<Rightarrow> Duration \<Rightarrow> Time \<Rightarrow> Tick \<Rightarrow> Time \<times> Detection option" where
  "detect_tick a minDetectionInterval lastDetection tk =
     (let decibels = calculateDecibels (bite tk)
      in if fgt decibels (decibleThreshold a)
            \<and> time_After (time_Add (now1 tk) (- minDetectionInterval)) lastDetection
         then (now2 tk, Some \<lparr>Decibel = decibels, DetectionTime = now3 tk\<rparr>)
         else (lastDetection, None))"

text \<open>The loop \<open>for range detectTicker\<close>: per tick, \<open>lastDetection\<close> afterwards and what was sent.\<close>

fun detect_ticks ::
  "Audio \<Rightarrow> Duration \<Rightarrow> Time \<Rightarrow> Tick list \<Rightarrow> (Time \<times> Detection option) list" where
  "detect_ticks a d lastDetection [] = []"
| "detect_ticks a d lastDetection (tk # tks) =
     (let r = detect_tick a d lastDetection tk in r # detect_ticks a d (fst r) tks)"

text \<open>\<open>StartDetection\<close> enters the loop with the zero Time in \<open>lastDetection\<close>.\<close>

definition StartDetection ::
  "Audio \<Rightarrow> Duration \<Rightarrow> Tick list \<Rightarrow> (Time \<times> Detection option) list" where
  "StartDetection a minDetectionInterval tks = detect_ticks a minDetectionInterval 0 tks"

text \<open>The clock never runs backwards: the readings of a run of ticks, from instant \<open>t\<close> on.\<close>

fun monotone_clock :: "Time \<Rightarrow> Tick list \<Rightarrow> bool" where
  "monotone_clock t [] = True"
| "monotone_clock t (tk # tks) =
     (t \<le> now1 tk \<and> now1 tk \<le> now2 tk \<and> now2 tk \<le> now3 tk \<and> monotone_clock (now3 tk) tks)"

section \<open>Delayed save trigger (video.go)\<close>

text \<open>
  The properties of the camera that the capture loop reads back with \<open>cam.Get\<close>, width and
  height after their conversion to \<open>int\<close>.
\<close>

record VideoCapture =
  FrameWidth :: int
  FrameHeight :: int
  FPS :: float64

record VideoProfile =
  name :: string
  cam :: VideoCapture
  durationToCaptureAfterEvent :: Duration

text \<open>
  \<open>VideoProfile.Save\<close>, called at instant \<open>now\<close>: the delay computed, and the earliest
  instant at which the save signal is offered on the channel.
\<close>

definition VideoProfile_Save :: "VideoProfile \<Rightarrow> Time \<Rightarrow> Detection \<Rightarrow> Duration \<times> Time" where
  "VideoProfile_Save v now detection =
     (let elapsed = time_Since now (DetectionTime detection);
          delay = durationToCaptureAfterEvent v - elapsed
      in (delay, time_Sleep now delay))"

section \<open>Clip file names (video.go)\<close>

text \<open>
  The wall-clock reading of \<open>time.Now()\<close>, broken into the fields that
  \<open>Format("2006-01-02 15-04-05")\<close> prints.
\<close>

record civil =
  year :: nat
  month :: nat
  day :: nat
  hour :: nat
  minute :: nat
  second :: nat

definition digit :: "nat \<Rightarrow> char" where
  "digit n = ''0123456789'' ! (n mod 10)"

fun decimal :: "nat \<Rightarrow> string" where
  "decimal n = (if n < 10 then [digit n] else decimal (n div 10) @ [digit n])"

declare decimal.simps [simp del]

text \<open>A number in decimal, padded with zeros on the left to at least the given width.\<close>

definition appendInt :: "nat \<Rightarrow> nat \<Rightarrow> string" where
  "appendInt n w = replicate (w - length (decimal n)) CHR ''0'' @ decimal n"

definition Format :: "civil \<Rightarrow> string" where
  "Format t =
     appendInt (year t) 4 @ ''-'' @ appendInt (month t) 2 @ ''-'' @ appendInt (day t) 2 @ '' ''
     @ appendInt (hour t) 2 @ ''-'' @ appendInt (minute t) 2 @ ''-'' @ appendInt (second t) 2"

text \<open>
  The name the capture loop saves under:
  \<open>fmt.Sprintf("videos/%s %s.avi", t, v.name)\<close> with \<open>t\<close> the formatted time.
\<close>

definition clip_file :: "string \<Rightarrow> civil \<Rightarrow> string" where
  "clip_file nm now = ''videos/'' @ Format now @ '' '' @ nm @ ''.avi''"

text \<open>A string of decimal digits.\<close>

definition is_digits :: "string \<Rightarrow> bool" where
  "is_digits cs = list_all (\<lambda>c. c \<in> set ''0123456789'') cs"

section \<open>VideoPlayback (video.go)\<close>

text \<open>The field \<open>file\<close> is called \<open>playback_file\<close> here.\<close>

record VideoPlayback =
  camName :: string
  playback_file :: string
  fps :: float64

definition NewVideoPlayback :: "string \<Rightarrow> string \<Rightarrow> float64 \<Rightarrow> VideoPlayback" where
  "NewVideoPlayback cn f r = \<lparr>camName = cn, playback_file = f, fps = r\<rparr>"

datatype outcome = Stopped | OpenFailed | StillPlaying

text \<open>
  The inner loop of \<open>VideoPlayback.Start\<close> over the frames that \<open>video.Read\<close> yields, up
  to the end of the clip.  \<open>shown\<close> are the frames handed to the window so far.  An empty
  frame is skipped.  Before each hand-off the stop channel is polled; \<open>stop k\<close> tells
  whether a stop signal is waiting at the poll that follows \<open>k\<close> hand-offs.  The result
  says whether the playback returned, and what was shown.  The sleep of \<open>frameDelay\<close>
  after a hand-off only spaces the hand-offs in time.
\<close>

fun play_pass :: "(nat \<Rightarrow> bool) \<Rightarrow> 'p Mat list \<Rightarrow> 'p Mat list \<Rightarrow> bool \<times> 'p Mat list" where
  "play_pass stop [] shown = (False, shown)"
| "play_pass stop (f # fs) shown =
     (if f = EmptyMat then play_pass stop fs shown
      else if stop (length shown) then (True, shown)
      else play_pass stop fs (shown @ [f]))"

text \<open>
  The outer loop: open the file (failing when the disk holds no clip of that name), play
  one pass, reopen.  The loop has no exit of its own, so the model counts passes: after
  \<open>n\<close> passes without a return the playback is still playing.
\<close>

fun VideoPlayback_Start ::
  "nat \<Rightarrow> 'p disk \<Rightarrow> (nat \<Rightarrow> bool) \<Rightarrow> VideoPlayback \<Rightarrow> 'p Mat list \<Rightarrow> outcome \<times> 'p Mat list" where
  "VideoPlayback_Start 0 d stop v shown = (StillPlaying, shown)"
| "VideoPlayback_Start (Suc n) d stop v shown =
     (case d (playback_file v) of
        None \<Rightarrow> (OpenFailed, shown)
      | Some c \<Rightarrow>
          (case play_pass stop (written c) shown of
             (True, shown') \<Rightarrow> (Stopped, shown')
           | (False, shown') \<Rightarrow> VideoPlayback_Start n d stop v shown'))"

text \<open>The frames of a clip that a pass hands to the window.\<close>

definition playable :: "'p Mat list \<Rightarrow> 'p Mat list" where
  "playable fs = filter (\<lambda>f. f \<noteq> EmptyMat) fs"

section \<open>The capture loop (video.go)\<close>

definition DefaultFPS :: float64 where
  "DefaultFPS = Fin 120"

text \<open>
  What the loop of \<open>VideoProfile.Start\<close> does to playbacks and clips, in order.
\<close>

datatype action =
    StopPlayback VideoPlayback
  | SaveBuffer string "error option"
  | StartPlayback VideoPlayback

text \<open>
  The loop leaves its \<open>select\<close> for good when a channel send finds no receiver (it blocks
  forever) or when a panic unwinds it.
\<close>

datatype halt = Blocked | Panicked error

text \<open>
  The state of one stream: the local variables \<open>frameBuffer\<close>, \<open>playback\<close> and
  \<open>stopped\<close> of \<open>Start\<close>, the clips on disk, the playback goroutines that were started
  with \<open>go playback.Start\<close> and have not returned (\<open>live\<close>), and the actions so far.
\<close>

record 'p Stream =
  frameBuffer :: "'p VideoFrameBuffer"
  playback :: "VideoPlayback option"
  stopped :: bool
  clips :: "'p disk"
  live :: "VideoPlayback list"
  trace :: "action list"

text \<open>
  One turn of the loop takes one branch of the \<open>select\<close>: the stop signal, the save signal
  (with the reading of the wall clock that names the clip), or the default branch with the
  answer of \<open>cam.Read\<close> (\<open>None\<close> when no frame is ready, else the rotated clone of the
  frame).  Between turns a playback goroutine may return on its own, when it cannot open
  its clip.
\<close>

datatype 'p event =
    StopSignal
  | SaveSignal civil
  | CamRead "'p Mat option"
  | PlaybackReturned VideoPlayback

text \<open>
  A playback polls its stop channel only after \<open>video.Read\<close> has yielded a frame that is
  not empty.  So a playback of a clip reaches a poll if and only if the clip is on the disk
  and holds such a frame; on a clip without one it reopens the file forever and never looks
  at the channel.
\<close>

definition reaches_poll :: "'p disk \<Rightarrow> VideoPlayback \<Rightarrow> bool" where
  "reaches_poll d p =
     (case d (playback_file p) of None \<Rightarrow> False | Some c \<Rightarrow> playable (written c) \<noteq> [])"

text \<open>
  \<open>VideoPlayback.Stop\<close> sends on the unbuffered \<open>stop\<close> channel.  The send completes when
  the playback goroutine takes the signal at its poll, and that goroutine then returns
  without another hand-off.  With no such goroutine left, or with one that never reaches a
  poll, the send blocks forever.
\<close>

definition VideoPlayback_Stop :: "VideoPlayback \<Rightarrow> 'p Stream \<Rightarrow> halt + 'p Stream" where
  "VideoPlayback_Stop p s =
     (if p \<in> set (live s) \<and> reaches_poll (clips s) p
      then Inr (s\<lparr>live := remove1 p (live s), trace := trace s @ [StopPlayback p]\<rparr>)
      else Inl Blocked)"

text \<open>The branch \<open>case <-v.save\<close>.\<close>

definition on_save ::
  "'p VideoWriterEnv \<Rightarrow> VideoProfile \<Rightarrow> civil \<Rightarrow> 'p Stream \<Rightarrow> halt + 'p Stream" where
  "on_save env v now s =
     (case (case playback s of None \<Rightarrow> Inr s | Some p \<Rightarrow> VideoPlayback_Stop p s) of
        Inl h \<Rightarrow> Inl h
      | Inr s1 \<Rightarrow>
          (let file = clip_file (name v) now in
           case Save env (frameBuffer s1) file (FrameWidth (cam v)) (FrameHeight (cam v))
                  (FPS (cam v)) (clips s1) of
             (Some e, d) \<Rightarrow> Inr (s1\<lparr>clips := d, trace := trace s1 @ [SaveBuffer file (Some e)]\<rparr>)
           | (None, d) \<Rightarrow>
               (let p = NewVideoPlayback (name v) file DefaultFPS in
                Inr (s1\<lparr>playback := Some p, clips := d, live := live s1 @ [p],
                        trace := trace s1 @ [SaveBuffer file None, StartPlayback p]\<rparr>))))"

text \<open>The \<open>default\<close> branch.\<close>

definition on_frame :: "'p Mat option \<Rightarrow> 'p Stream \<Rightarrow> halt + 'p Stream" where
  "on_frame r s =
     (case r of
        None \<Rightarrow> Inr s
      | Some cloned \<Rightarrow>
          (case Append (frameBuffer s) cloned of
             Inl e \<Rightarrow> Inl (Panicked e)
           | Inr b \<Rightarrow> Inr (s\<lparr>frameBuffer := b\<rparr>)))"

fun step ::
  "'p VideoWriterEnv \<Rightarrow> VideoProfile \<Rightarrow> 'p event \<Rightarrow> 'p Stream \<Rightarrow> halt + 'p Stream" where
  "step env v StopSignal s = Inr (s\<lparr>stopped := True\<rparr>)"
| "step env v (SaveSignal now) s = on_save env v now s"
| "step env v (CamRead r) s = on_frame r s"
| "step env v (PlaybackReturned p) s = Inr (s\<lparr>live := remove1 p (live s)\<rparr>)"




section \<open>Properties of the frame buffer\<close>

lemma appends_snoc:
  "appends v (fs @ [f]) = (case appends v fs of Inl e \<Rightarrow> Inl e | Inr v' \<Rightarrow> Append v' f)"
  by (induction fs arbitrary: v) (auto split: sum.splits)

lemma appends_append:
  "appends v (fs @ gs) = (case appends v fs of Inl e \<Rightarrow> Inl e | Inr v' \<Rightarrow> appends v' gs)"
  by (induction fs arbitrary: v) (auto split: sum.splits)

lemma Append_after_appends:
  assumes "0 < N"
  shows "Append (after_appends N fs) f = Inr (after_appends N (fs @ [f]))"
proof (cases "length fs < N")
  case True
  then have "(fs @ replicate (N - length fs) EmptyMat)[length fs := f]
      = fs @ f # replicate (N - Suc (length fs)) EmptyMat"
    by (cases "N - length fs") (simp_all add: list_update_append)
  with True show ?thesis
    by (auto simp: Append_def after_appends_def not_less Suc_le_eq)
next
  case False
  then have len: "N \<le> length fs" by simp
  have "tl (drop (length fs - N) fs) = drop (Suc (length fs) - N) fs"
    using len by (simp add: drop_Suc tl_drop Suc_diff_le)
  with assms len show ?thesis
    by (auto simp: Append_def after_appends_def)
qed

lemma appends_closed_form:
  assumes "0 < N"
  shows "appends (NewVideoFrameBuffer N) fs = Inr (after_appends N fs)"
proof (induction fs rule: rev_induct)
  case Nil
  from assms show ?case by (simp add: NewVideoFrameBuffer_def after_appends_def)
next
  case (snoc f fs)
  with assms show ?case by (simp add: appends_snoc Append_after_appends)
qed

lemma write_frames_all:
  "\<forall>f \<in> set fs. ok f \<Longrightarrow> write_frames ok i fs out = (None, out @ fs)"
  by (induction fs arbitrary: i out) auto

lemma Append_shape:
  assumes "Append v f = Inr v'"
  shows "length (frames v') = length (frames v)" and "idx v \<le> idx v'"
    and "idx v \<le> length (frames v) \<Longrightarrow> idx v' \<le> length (frames v')"
  using assms by (auto simp: Append_def split: if_splits)

lemma appends_shape:
  assumes "appends v fs = Inr v'"
  shows "length (frames v') = length (frames v) \<and> idx v \<le> idx v'
    \<and> (idx v \<le> length (frames v) \<longrightarrow> idx v' \<le> length (frames v'))"
  using assms
proof (induction fs arbitrary: v)
  case Nil
  then show ?case by simp
next
  case (Cons f fs)
  from Cons.prems obtain u where u: "Append v f = Inr u" and rest: "appends u fs = Inr v'"
    by (auto split: sum.splits)
  from Append_shape [OF u] Cons.IH [OF rest] show ?case by auto
qed

text \<open>
  C1.  From a fresh buffer of capacity \<open>N > 0\<close>, every sequence \<open>fs\<close> of appends succeeds
  and leaves exactly \<open>N\<close> slots, of which \<open>min (length fs) N\<close> are filled.  Before the
  buffer is full the appended frames occupy the first slots in order, and one more append
  stores into slot \<open>idx\<close> and increments \<open>idx\<close>; once \<open>idx = N\<close> one more append drops
  slot 0 and puts the new frame last.  After at least \<open>N\<close> appends the buffer is full, its
  slots are the last \<open>N\<close> appended frames in capture order, and \<open>Save\<close> (with a writer that
  can be created and accepts these frames) returns no error and stores exactly those frames,
  in that order, under the given file name.
\<close>

theorem ring_buffer_keeps_last_N:
  assumes "0 < N"
  shows "\<exists>v v'. appends (NewVideoFrameBuffer N) fs = Inr v
      \<and> appends (NewVideoFrameBuffer N) (fs @ [f]) = Inr v'
      \<and> length (frames v) = N \<and> idx v = min (length fs) N
      \<and> (idx v < N \<longrightarrow> frames v = fs @ replicate (N - length fs) EmptyMat
            \<and> frames v' = (frames v)[idx v := f] \<and> idx v' = idx v + 1)
      \<and> (idx v = N \<longrightarrow> frames v' = tl (frames v) @ [f] \<and> idx v' = N)
      \<and> (N \<le> length fs \<longrightarrow> Full v \<and> frames v = drop (length fs - N) fs
            \<and> (creatable env path \<and> (\<forall>g \<in> set (drop (length fs - N) fs). writable env g) \<longrightarrow>
                 Save env v path w h r d =
                   (None, d(path \<mapsto> \<lparr>clip_codec = ''MJPG'', clip_fps = r, clip_width = w, clip_height = h,
                                      written = drop (length fs - N) fs\<rparr>))))"
proof -
  let ?v = "after_appends N fs"
  let ?v' = "after_appends N (fs @ [f])"
  have run: "appends (NewVideoFrameBuffer N) fs = Inr ?v"
    and run': "appends (NewVideoFrameBuffer N) (fs @ [f]) = Inr ?v'"
    using assms by (rule appends_closed_form)+
  have step: "Append ?v f = Inr ?v'"
    using assms by (rule Append_after_appends)
  have shape: "length (frames ?v) = N \<and> idx ?v = min (length fs) N"
    by (simp add: after_appends_def)
  have early: "idx ?v < N \<longrightarrow> frames ?v = fs @ replicate (N - length fs) EmptyMat
      \<and> frames ?v' = (frames ?v)[idx ?v := f] \<and> idx ?v' = idx ?v + 1"
    using step by (auto simp: Append_def after_appends_def split: if_splits)
  have late: "idx ?v = N \<longrightarrow> frames ?v' = tl (frames ?v) @ [f] \<and> idx ?v' = N"
  proof
    assume at_N: "idx ?v = N"
    with step shape have "?v\<lparr>frames := tl (frames ?v) @ [f]\<rparr> = ?v'"
      by (auto simp: Append_def split: if_splits)
    then have "frames ?v' = frames (?v\<lparr>frames := tl (frames ?v) @ [f]\<rparr>)"
      and "idx ?v' = idx (?v\<lparr>frames := tl (frames ?v) @ [f]\<rparr>)"
      by (rule arg_cong [OF sym])+
    with at_N show "frames ?v' = tl (frames ?v) @ [f] \<and> idx ?v' = N"
      by simp
  qed
  have full: "N \<le> length fs \<longrightarrow> Full ?v \<and> frames ?v = drop (length fs - N) fs"
    by (simp add: after_appends_def Full_def)
  have saved: "Save env ?v path w h r d =
      (None, d(path \<mapsto> \<lparr>clip_codec = ''MJPG'', clip_fps = r, clip_width = w, clip_height = h,
                         written = drop (length fs - N) fs\<rparr>))"
    if "N \<le> length fs" "creatable env path"
      "\<forall>g \<in> set (drop (length fs - N) fs). writable env g"
  proof -
    from that(1) full have fr: "frames ?v = drop (length fs - N) fs" and fl: "Full ?v"
      by simp_all
    from that(3) have "write_frames (writable env) 0 (frames ?v) []
        = (None, drop (length fs - N) fs)"
      unfolding fr using write_frames_all [of "drop (length fs - N) fs" "writable env" 0 "[]"]
      by simp
    with fl that(2) show ?thesis by (simp add: Save_def)
  qed
  from run run' shape early late full saved show ?thesis by blast
qed

theorem ring_buffer_keeps_last_N_witness:
  "\<exists>v v'. appends (NewVideoFrameBuffer 2) [Frame (1::nat), Frame 2, Frame 3] = Inr v
      \<and> appends (NewVideoFrameBuffer 2) [Frame (1::nat), Frame 2, Frame 3, Frame 4] = Inr v'
      \<and> frames v = [Frame 2, Frame 3] \<and> idx v = 2 \<and> Full v
      \<and> frames v' = [Frame 3, Frame 4] \<and> idx v' = 2
      \<and> fst (Save \<lparr>creatable = (\<lambda>_. True), writable = (\<lambda>_. True)\<rparr> v
                ''videos/clip.avi'' 1280 720 (Fin 120) Map.empty) = None
      \<and> map_option written
           (snd (Save \<lparr>creatable = (\<lambda>_. True), writable = (\<lambda>_. True)\<rparr> v
                   ''videos/clip.avi'' 1280 720 (Fin 120) Map.empty) ''videos/clip.avi'')
         = Some [Frame 2, Frame 3]"
  using ring_buffer_keeps_last_N [of 2 "[Frame (1::nat), Frame 2, Frame 3]" "Frame 4"
      "\<lparr>creatable = (\<lambda>_. True), writable = (\<lambda>_. True)\<rparr>" "''videos/clip.avi''"
      1280 720 "Fin 120" Map.empty]
  by (auto simp: Full_def)

text \<open>
  C2.  \<open>Save\<close> on a buffer whose \<open>idx\<close> is below the number of slots returns the not-full
  error and leaves the disk as it was: the writer is never created and nothing is stored.
  In particular this is the outcome after fewer than \<open>N\<close> appends to a fresh buffer.
\<close>

theorem save_not_full_writes_nothing:
  "(idx v < length (frames v) \<longrightarrow>
      Save env v path w h r d = (Some (NotFullError (idx v) (length (frames v))), d))
   \<and> (length fs < N \<longrightarrow>
      (\<exists>u. appends (NewVideoFrameBuffer N) fs = Inr u
         \<and> Save env u path w h r d = (Some (NotFullError (length fs) N), d)))"
proof (intro conjI impI)
  assume "idx v < length (frames v)"
  then show "Save env v path w h r d = (Some (NotFullError (idx v) (length (frames v))), d)"
    by (simp add: Save_def Full_def)
next
  assume short: "length fs < N"
  then have "0 < N" by simp
  then have "appends (NewVideoFrameBuffer N) fs = Inr (after_appends N fs)"
    by (rule appends_closed_form)
  moreover from short
  have "Save env (after_appends N fs) path w h r d = (Some (NotFullError (length fs) N), d)"
    by (simp add: Save_def Full_def after_appends_def)
  ultimately show "\<exists>u. appends (NewVideoFrameBuffer N) fs = Inr u
      \<and> Save env u path w h r d = (Some (NotFullError (length fs) N), d)"
    by blast
qed

theorem save_not_full_writes_nothing_witness:
  "Save \<lparr>creatable = (\<lambda>_. True), writable = (\<lambda>_. True)\<rparr>
      \<lparr>frames = [Frame (7::nat), EmptyMat, EmptyMat], idx = 1\<rparr>
      ''videos/clip.avi'' 1280 720 (Fin 120) Map.empty
    = (Some (NotFullError 1 3), Map.empty)
   \<and> (\<exists>u. appends (NewVideoFrameBuffer 3) [Frame (7::nat), Frame 8] = Inr u
         \<and> Save \<lparr>creatable = (\<lambda>_. True), writable = (\<lambda>_. True)\<rparr> u
              ''videos/clip.avi'' 1280 720 (Fin 120) Map.empty
            = (Some (NotFullError 2 3), Map.empty))"
  using save_not_full_writes_nothing
    [of "\<lparr>frames = [Frame (7::nat), EmptyMat, EmptyMat], idx = 1\<rparr>"
      "\<lparr>creatable = (\<lambda>_. True), writable = (\<lambda>_. True)\<rparr>" "''videos/clip.avi''"
      1280 720 "Fin 120" Map.empty "[Frame (7::nat), Frame 8]" 3]
  by (simp add: numeral_2_eq_2)

text \<open>
  C9.  Whatever is appended to a fresh buffer of capacity \<open>N\<close>, a run that returns leaves
  exactly \<open>N\<close> slots and \<open>idx \<le> N\<close>; appending more never lowers \<open>idx\<close>, so a buffer that
  is full stays full after every later append.  For \<open>N > 0\<close> every run returns.
\<close>

theorem buffer_shape_invariant:
  "(appends (NewVideoFrameBuffer N) fs = Inr v \<longrightarrow> length (frames v) = N \<and> idx v \<le> N)
   \<and> (appends (NewVideoFrameBuffer N) fs = Inr v \<and> appends v gs = Inr v' \<longrightarrow>
        appends (NewVideoFrameBuffer N) (fs @ gs) = Inr v'
        \<and> length (frames v') = N \<and> idx v \<le> idx v' \<and> idx v' \<le> N \<and> (Full v \<longrightarrow> Full v'))
   \<and> (0 < N \<longrightarrow> (\<exists>u u'. appends (NewVideoFrameBuffer N) fs = Inr u \<and> appends u gs = Inr u'))"
proof -
  have first: "length (frames v) = N \<and> idx v \<le> N"
    if run: "appends (NewVideoFrameBuffer N) fs = Inr v"
    using appends_shape [OF run] by (simp add: NewVideoFrameBuffer_def)
  have later: "appends (NewVideoFrameBuffer N) (fs @ gs) = Inr v'
      \<and> length (frames v') = N \<and> idx v \<le> idx v' \<and> idx v' \<le> N \<and> (Full v \<longrightarrow> Full v')"
    if run: "appends (NewVideoFrameBuffer N) fs = Inr v" and more: "appends v gs = Inr v'"
  proof -
    from first [OF run] have v: "length (frames v) = N" "idx v \<le> N"
      by simp_all
    from appends_shape [OF more] v
    have v': "length (frames v') = N" "idx v \<le> idx v'" "idx v' \<le> N"
      by simp_all
    from run more have "appends (NewVideoFrameBuffer N) (fs @ gs) = Inr v'"
      by (simp add: appends_append)
    moreover from v v' have "Full v \<longrightarrow> Full v'"
      by (auto simp: Full_def)
    ultimately show ?thesis using v' by simp
  qed
  have returns: "\<exists>u u'. appends (NewVideoFrameBuffer N) fs = Inr u \<and> appends u gs = Inr u'"
    if pos: "0 < N"
  proof -
    have "appends (NewVideoFrameBuffer N) (fs @ gs) = Inr (after_appends N (fs @ gs))"
      using pos by (rule appends_closed_form)
    moreover have "appends (NewVideoFrameBuffer N) fs = Inr (after_appends N fs)"
      using pos by (rule appends_closed_form)
    ultimately show ?thesis by (simp add: appends_append)
  qed
  from first later returns show ?thesis by blast
qed

theorem buffer_shape_invariant_witness:
  "appends (NewVideoFrameBuffer 2) [Frame (1::nat), Frame 2]
      = Inr \<lparr>frames = [Frame 1, Frame 2], idx = 2\<rparr>
   \<and> appends \<lparr>frames = [Frame (1::nat), Frame 2], idx = 2\<rparr> [Frame 3]
      = Inr \<lparr>frames = [Frame 2, Frame 3], idx = 2\<rparr>
   \<and> appends (NewVideoFrameBuffer 2) ([Frame (1::nat), Frame 2] @ [Frame 3])
      = Inr \<lparr>frames = [Frame 2, Frame 3], idx = 2\<rparr>
   \<and> Full \<lparr>frames = [Frame (1::nat), Frame 2], idx = 2\<rparr>
   \<and> Full \<lparr>frames = [Frame (2::nat), Frame 3], idx = 2\<rparr>"
proof -
  have a: "appends (NewVideoFrameBuffer 2) [Frame (1::nat), Frame 2]
      = Inr \<lparr>frames = [Frame 1, Frame 2], idx = 2\<rparr>"
    by (simp add: NewVideoFrameBuffer_def Append_def numeral_2_eq_2)
  have b: "appends \<lparr>frames = [Frame (1::nat), Frame 2], idx = 2\<rparr> [Frame 3]
      = Inr \<lparr>frames = [Frame 2, Frame 3], idx = 2\<rparr>"
    by (simp add: Append_def)
  have c: "Full \<lparr>frames = [Frame (1::nat), Frame 2], idx = 2\<rparr>"
    by (simp add: Full_def)
  from a b c buffer_shape_invariant
    [of 2 "[Frame (1::nat), Frame 2]" "\<lparr>frames = [Frame 1, Frame 2], idx = 2\<rparr>"
      "[Frame 3]" "\<lparr>frames = [Frame 2, Frame 3], idx = 2\<rparr>"]
  show ?thesis by simp
qed

section \<open>Properties of the timing arithmetic\<close>

lemma sint_word_of_int_64:
  "- (2 ^ 63) \<le> k \<Longrightarrow> k < 2 ^ 63 \<Longrightarrow> sint (word_of_int k :: 64 word) = k"
  by (simp add: sint_sbintrunc' signed_take_bit_int_eq_self)

lemma sint_minus_64:
  "- (2 ^ 63) \<le> sint x - sint y \<Longrightarrow> sint x - sint y < 2 ^ 63
    \<Longrightarrow> sint (x - y :: 64 word) = sint x - sint y"
  by (simp add: sint_word_ariths signed_take_bit_int_eq_self)

lemma sint_uminus_le_64: "sint (- d :: 64 word) \<le> - sint d"
proof -
  have "sint d < 2 ^ 63" using sint_lt [of d] by simp
  then have "- (2 ^ 63) \<le> - sint d" by simp
  then show ?thesis
    by (simp add: sint_word_ariths signed_take_bit_int_less_eq_self_iff)
qed

lemma time_Since_exact:
  assumes "t \<le> now" and "now - t < 2 ^ 63"
  shows "sint (time_Since now t) = now - t"
proof -
  from assms have "time_Since now t = word_of_int (now - t)"
    unfolding time_Since_def time_Sub_def maxDuration_def minDuration_def by auto
  moreover from assms have "sint (word_of_int (now - t) :: 64 word) = now - t"
    by (intro sint_word_of_int_64) auto
  ultimately show ?thesis by (simp only:)
qed

text \<open>
  C3.  For a Detection that lies in the past, by less than the range of a Duration, and a
  non-negative post-event duration, \<open>VideoProfile.Save\<close> computes
  \<open>delay = durationToCaptureAfterEvent - (now - DetectionTime)\<close> without overflow, and
  offers the save signal after sleeping for that delay; when the delay is zero or negative
  the sleep returns at once and the signal is offered at \<open>now\<close>.
\<close>

theorem save_delay_arithmetic:
  assumes past: "DetectionTime det \<le> now"
    and near: "now - DetectionTime det < 2 ^ 63"
    and post: "0 \<le> sint (durationToCaptureAfterEvent v)"
  shows "sint (fst (VideoProfile_Save v now det))
        = sint (durationToCaptureAfterEvent v) - (now - DetectionTime det)
    \<and> snd (VideoProfile_Save v now det)
        = (if sint (durationToCaptureAfterEvent v) - (now - DetectionTime det) \<le> 0 then now
           else now + (sint (durationToCaptureAfterEvent v) - (now - DetectionTime det)))"
proof -
  let ?post = "durationToCaptureAfterEvent v"
  let ?elapsed = "time_Since now (DetectionTime det)"
  have elapsed: "sint ?elapsed = now - DetectionTime det"
    using past near by (rule time_Since_exact)
  have "sint ?post < 2 ^ 63" using sint_lt [of ?post] by simp
  with elapsed past near post
  have "- (2 ^ 63) \<le> sint ?post - sint ?elapsed" and "sint ?post - sint ?elapsed < 2 ^ 63"
    by simp_all
  then have "sint (?post - ?elapsed) = sint ?post - sint ?elapsed"
    by (rule sint_minus_64)
  with elapsed show ?thesis
    by (simp add: VideoProfile_Save_def time_Sleep_def Let_def)
qed

theorem save_delay_arithmetic_witness:
  "sint (fst (VideoProfile_Save
      \<lparr>name = ''front'', cam = \<lparr>FrameWidth = 1280, FrameHeight = 720, FPS = Fin 120\<rparr>,
        durationToCaptureAfterEvent = 2000000000\<rparr>
      61000000000 \<lparr>Decibel = Fin 80, DetectionTime = 60000000000\<rparr>)) = 1000000000
   \<and> snd (VideoProfile_Save
      \<lparr>name = ''front'', cam = \<lparr>FrameWidth = 1280, FrameHeight = 720, FPS = Fin 120\<rparr>,
        durationToCaptureAfterEvent = 2000000000\<rparr>
      61000000000 \<lparr>Decibel = Fin 80, DetectionTime = 60000000000\<rparr>) = 62000000000
   \<and> snd (VideoProfile_Save
      \<lparr>name = ''front'', cam = \<lparr>FrameWidth = 1280, FrameHeight = 720, FPS = Fin 120\<rparr>,
        durationToCaptureAfterEvent = 2000000000\<rparr>
      63000000000 \<lparr>Decibel = Fin 80, DetectionTime = 60000000000\<rparr>) = 63000000000"
proof -
  let ?v = "\<lparr>name = ''front'', cam = \<lparr>FrameWidth = 1280, FrameHeight = 720, FPS = Fin 120\<rparr>,
        durationToCaptureAfterEvent = 2000000000\<rparr>"
  let ?d = "\<lparr>Decibel = Fin 80, DetectionTime = 60000000000\<rparr>"
  have a: "sint (fst (VideoProfile_Save ?v 61000000000 ?d)) = 1000000000
      \<and> snd (VideoProfile_Save ?v 61000000000 ?d) = 62000000000"
    using save_delay_arithmetic [of ?d 61000000000 ?v] by simp
  have b: "snd (VideoProfile_Save ?v 63000000000 ?d) = 63000000000"
    using save_delay_arithmetic [of ?d 63000000000 ?v] by simp
  from a b show ?thesis by simp
qed

section \<open>Properties of the detector\<close>

lemma fgt_irrefl: "\<not> fgt x x"
  by (cases x) simp_all

lemma fgt_NegInf: "\<not> fgt NegInf y"
  by (cases y) simp_all

lemma sum_squares_silence:
  "\<forall>s \<in> set samples. s = Fin 0 \<Longrightarrow> sum_squares (Fin 0) samples = Fin 0"
  by (induction samples) simp_all

lemma calculateRMS_silence:
  assumes "samples \<noteq> []" and "\<forall>s \<in> set samples. s = Fin 0"
  shows "calculateRMS samples = Fin 0"
  using assms by (simp add: calculateRMS_def sum_squares_silence)

lemma calculateDecibels_empty: "calculateDecibels [] = NaN"
  by (simp add: calculateDecibels_def calculateRMS_def referenceLevel_def)

lemma detect_tick_emits:
  assumes "detect_tick a d lastDetection tk = (t', Some dk)"
  shows "t' = now2 tk" and "DetectionTime dk = now3 tk"
    and "Decibel dk = calculateDecibels (bite tk)"
    and "fgt (calculateDecibels (bite tk)) (decibleThreshold a)"
    and "sint d < now1 tk - lastDetection"
proof -
  from assms have guard: "fgt (calculateDecibels (bite tk)) (decibleThreshold a)"
      "lastDetection < now1 tk + sint (- d)"
    and res: "t' = now2 tk" "dk = \<lparr>Decibel = calculateDecibels (bite tk), DetectionTime = now3 tk\<rparr>"
    by (auto simp: detect_tick_def Let_def time_After_def time_Add_def split: if_splits)
  from res show "t' = now2 tk" "DetectionTime dk = now3 tk"
    "Decibel dk = calculateDecibels (bite tk)"
    by simp_all
  from guard show "fgt (calculateDecibels (bite tk)) (decibleThreshold a)" by simp
  from guard(2) sint_uminus_le_64 [of d] show "sint d < now1 tk - lastDetection" by simp
qed

lemma detect_tick_state:
  "fst (detect_tick a d lastDetection tk) = lastDetection
    \<or> fst (detect_tick a d lastDetection tk) = now2 tk"
  by (simp add: detect_tick_def Let_def)

lemma emission_after_bound:
  assumes "monotone_clock t tks" and "lb \<le> lastDetection" and "lb \<le> t"
    and "k < length tks" and "snd (detect_ticks a d lastDetection tks ! k) = Some dk"
  shows "fst (detect_ticks a d lastDetection tks ! k) = now2 (tks ! k)
    \<and> DetectionTime dk = now3 (tks ! k)
    \<and> Decibel dk = calculateDecibels (bite (tks ! k))
    \<and> fgt (Decibel dk) (decibleThreshold a)
    \<and> sint d < now2 (tks ! k) - lb"
  using assms
proof (induction tks arbitrary: t lastDetection k)
  case Nil
  then show ?case by simp
next
  case (Cons tk tks)
  from Cons.prems(1) have clock: "t \<le> now1 tk" "now1 tk \<le> now2 tk" "now2 tk \<le> now3 tk"
    and rest: "monotone_clock (now3 tk) tks"
    by simp_all
  show ?case
  proof (cases k)
    case 0
    with Cons.prems(5) obtain t' where "detect_tick a d lastDetection tk = (t', Some dk)"
      by (cases "detect_tick a d lastDetection tk") (simp add: Let_def)
    note e = detect_tick_emits [OF this] this
    with 0 clock Cons.prems(2) show ?thesis by (simp add: Let_def)
  next
    case (Suc k')
    let ?next = "fst (detect_tick a d lastDetection tk)"
    from detect_tick_state [of a d lastDetection tk] clock Cons.prems(2,3)
    have "lb \<le> ?next" by auto
    moreover from clock Cons.prems(3) have "lb \<le> now3 tk" by simp
    moreover from Suc Cons.prems(4) have "k' < length tks" by simp
    moreover from Suc Cons.prems(5) have "snd (detect_ticks a d ?next tks ! k') = Some dk"
      by (simp add: Let_def)
    ultimately have "fst (detect_ticks a d ?next tks ! k') = now2 (tks ! k')
      \<and> DetectionTime dk = now3 (tks ! k')
      \<and> Decibel dk = calculateDecibels (bite (tks ! k'))
      \<and> fgt (Decibel dk) (decibleThreshold a)
      \<and> sint d < now2 (tks ! k') - lb"
      using rest by (intro Cons.IH)
    with Suc show ?thesis by (auto simp: Let_def)
  qed
qed

lemma monotone_clock_nth:
  assumes "monotone_clock t tks" and "k < length tks"
  shows "t \<le> now1 (tks ! k) \<and> now1 (tks ! k) \<le> now2 (tks ! k) \<and> now2 (tks ! k) \<le> now3 (tks ! k)"
  using assms
proof (induction tks arbitrary: t k)
  case Nil
  then show ?case by simp
next
  case (Cons tk tks)
  show ?case
  proof (cases k)
    case 0
    with Cons.prems show ?thesis by simp
  next
    case (Suc k')
    with Cons.prems have "monotone_clock (now3 tk) tks" and "k' < length tks"
      by simp_all
    from Cons.IH [OF this] Cons.prems(1) Suc show ?thesis by simp
  qed
qed

text \<open>
  C4.  With a clock that never runs backwards, take any two ticks \<open>i < j\<close> of a run of the
  detection loop that both send a Detection.  Each of them stored its reading of the clock
  in \<open>lastDetection\<close>, the two stored instants lie more than the minimum interval apart,
  the later Detection's time stamp lies more than the interval after the earlier stored
  instant, and both were sent with the loudness above the threshold.  So ticks inside the
  interval send nothing, however loud they are.
\<close>

theorem detections_debounced:
  assumes "monotone_clock t tks" and "i < j" and "j < length tks"
    and "snd (detect_ticks a d lastDetection tks ! i) = Some di"
    and "snd (detect_ticks a d lastDetection tks ! j) = Some dj"
  shows "fst (detect_ticks a d lastDetection tks ! i) = now2 (tks ! i)
    \<and> fst (detect_ticks a d lastDetection tks ! j) = now2 (tks ! j)
    \<and> sint d < fst (detect_ticks a d lastDetection tks ! j)
                 - fst (detect_ticks a d lastDetection tks ! i)
    \<and> sint d < DetectionTime dj - fst (detect_ticks a d lastDetection tks ! i)
    \<and> fgt (Decibel di) (decibleThreshold a) \<and> fgt (Decibel dj) (decibleThreshold a)"
  using assms
proof (induction tks arbitrary: t lastDetection i j)
  case Nil
  then show ?case by simp
next
  case (Cons tk tks)
  from Cons.prems(2) obtain j' where j: "j = Suc j'"
    by (cases j) simp_all
  from Cons.prems(1) have clock: "t \<le> now1 tk" "now1 tk \<le> now2 tk" "now2 tk \<le> now3 tk"
    and rest: "monotone_clock (now3 tk) tks"
    by simp_all
  from j Cons.prems(3) have j'_len: "j' < length tks" by simp
  let ?next = "fst (detect_tick a d lastDetection tk)"
  from j Cons.prems(5) have ej: "snd (detect_ticks a d ?next tks ! j') = Some dj"
    by (simp add: Let_def)
  show ?case
  proof (cases i)
    case 0
    with Cons.prems(4) obtain t' where first: "detect_tick a d lastDetection tk = (t', Some di)"
      by (cases "detect_tick a d lastDetection tk") (simp add: Let_def)
    note ei = detect_tick_emits [OF first]
    from first ei(1) have next_eq: "?next = now2 tk" by simp
    from clock have "now2 tk \<le> now3 tk" by simp
    from emission_after_bound [OF rest _ this j'_len ej] next_eq
    have later: "fst (detect_ticks a d ?next tks ! j') = now2 (tks ! j')"
      "DetectionTime dj = now3 (tks ! j')" "fgt (Decibel dj) (decibleThreshold a)"
      "sint d < now2 (tks ! j') - now2 tk"
      by auto
    from monotone_clock_nth [OF rest j'_len] have "now2 (tks ! j') \<le> now3 (tks ! j')"
      by simp
    with 0 j first ei later show ?thesis by (simp add: Let_def)
  next
    case (Suc i')
    with j Cons.prems(2) have "i' < j'" by simp
    moreover from Suc Cons.prems(4) have "snd (detect_ticks a d ?next tks ! i') = Some di"
      by (simp add: Let_def)
    ultimately
    have "fst (detect_ticks a d ?next tks ! i') = now2 (tks ! i')
      \<and> fst (detect_ticks a d ?next tks ! j') = now2 (tks ! j')
      \<and> sint d < fst (detect_ticks a d ?next tks ! j') - fst (detect_ticks a d ?next tks ! i')
      \<and> sint d < DetectionTime dj - fst (detect_ticks a d ?next tks ! i')
      \<and> fgt (Decibel di) (decibleThreshold a) \<and> fgt (Decibel dj) (decibleThreshold a)"
      using rest j'_len ej by (intro Cons.IH)
    with Suc j show ?thesis by (simp add: Let_def)
  qed
qed

lemma sqrt_loud: "sqrt 107374182400000000 = 327680000"
  by (rule real_sqrt_unique) simp_all

lemma log10_10000: "log 10 10000 = 4"
proof -
  have "log 10 (10 ^ 4) = real 4" by (rule log_pow_cancel) simp_all
  then show ?thesis by simp
qed

lemma decibels_loud: "calculateDecibels [Fin 327680000] = Fin 80"
  by (simp add: calculateDecibels_def calculateRMS_def referenceLevel_def sqrt_loud log10_10000)

theorem detections_debounced_witness:
  "StartDetection \<lparr>decibleThreshold = Fin 75\<rparr> 5000000000
      [\<lparr>bite = [Fin 327680000], now1 = 70000000000, now2 = 70000000010, now3 = 70000000020\<rparr>,
       \<lparr>bite = [Fin 327680000], now1 = 70100000000, now2 = 70100000010, now3 = 70100000020\<rparr>,
       \<lparr>bite = [Fin 327680000], now1 = 70200000000, now2 = 70200000010, now3 = 70200000020\<rparr>,
       \<lparr>bite = [Fin 327680000], now1 = 75100000000, now2 = 75100000010, now3 = 75100000020\<rparr>]
    = [(70000000010, Some \<lparr>Decibel = Fin 80, DetectionTime = 70000000020\<rparr>),
       (70000000010, None),
       (70000000010, None),
       (75100000010, Some \<lparr>Decibel = Fin 80, DetectionTime = 75100000020\<rparr>)]
   \<and> sint (5000000000 :: Duration) < 75100000010 - 70000000010"
proof -
  let ?a = "\<lparr>decibleThreshold = Fin 75\<rparr>"
  let ?tks = "[\<lparr>bite = [Fin 327680000], now1 = 70000000000, now2 = 70000000010, now3 = 70000000020\<rparr>,
       \<lparr>bite = [Fin 327680000], now1 = 70100000000, now2 = 70100000010, now3 = 70100000020\<rparr>,
       \<lparr>bite = [Fin 327680000], now1 = 70200000000, now2 = 70200000010, now3 = 70200000020\<rparr>,
       \<lparr>bite = [Fin 327680000], now1 = 75100000000, now2 = 75100000010, now3 = 75100000020\<rparr>]"
  have run: "detect_ticks ?a 5000000000 0 ?tks
    = [(70000000010, Some \<lparr>Decibel = Fin 80, DetectionTime = 70000000020\<rparr>),
       (70000000010, None),
       (70000000010, None),
       (75100000010, Some \<lparr>Decibel = Fin 80, DetectionTime = 75100000020\<rparr>)]"
    by (simp add: detect_tick_def time_After_def time_Add_def decibels_loud Let_def)
  have clock: "monotone_clock 0 ?tks" by simp
  have "sint (5000000000 :: Duration)
      < fst (detect_ticks ?a 5000000000 0 ?tks ! 3) - fst (detect_ticks ?a 5000000000 0 ?tks ! 0)"
    using detections_debounced [OF clock, of 0 3 ?a 5000000000 0
        "\<lparr>Decibel = Fin 80, DetectionTime = 70000000020\<rparr>"
        "\<lparr>Decibel = Fin 80, DetectionTime = 75100000020\<rparr>"]
    unfolding run by simp
  then show ?thesis unfolding StartDetection_def run by simp
qed

text \<open>
  C5.  The trigger is a strict comparison: a window whose level equals the threshold sends
  no Detection and leaves \<open>lastDetection\<close> alone.  A window with RMS equal to zero has the
  level minus infinity, which exceeds no threshold, so it sends no Detection either; every
  non-empty window of zero samples has RMS zero.
\<close>

theorem threshold_is_strict:
  "(calculateDecibels (bite tk) = decibleThreshold a \<longrightarrow>
      detect_tick a d lastDetection tk = (lastDetection, None))
   \<and> (feq (calculateRMS (bite tk)) (Fin 0) \<longrightarrow>
      calculateDecibels (bite tk) = NegInf
      \<and> \<not> fgt (calculateDecibels (bite tk)) threshold
      \<and> detect_tick a d lastDetection tk = (lastDetection, None))
   \<and> (bite tk \<noteq> [] \<and> (\<forall>s \<in> set (bite tk). s = Fin 0) \<longrightarrow>
      calculateRMS (bite tk) = Fin 0)"
proof -
  have boundary: "detect_tick a d lastDetection tk = (lastDetection, None)"
    if "calculateDecibels (bite tk) = decibleThreshold a"
    using that fgt_irrefl [of "decibleThreshold a"] by (simp add: detect_tick_def)
  have silence: "calculateDecibels (bite tk) = NegInf
      \<and> \<not> fgt (calculateDecibels (bite tk)) threshold
      \<and> detect_tick a d lastDetection tk = (lastDetection, None)"
    if "feq (calculateRMS (bite tk)) (Fin 0)"
  proof -
    from that have "calculateDecibels (bite tk) = NegInf"
      by (simp add: calculateDecibels_def)
    then show ?thesis by (simp add: detect_tick_def fgt_NegInf)
  qed
  have zeros: "calculateRMS (bite tk) = Fin 0"
    if "bite tk \<noteq> [] \<and> (\<forall>s \<in> set (bite tk). s = Fin 0)"
    using that by (simp add: calculateRMS_silence)
  from boundary silence zeros show ?thesis by blast
qed

theorem threshold_is_strict_witness:
  "calculateDecibels [Fin 327680000] = Fin 80
   \<and> detect_tick \<lparr>decibleThreshold = Fin 80\<rparr> 5000000000 0
        \<lparr>bite = [Fin 327680000], now1 = 70000000000, now2 = 70000000010, now3 = 70000000020\<rparr>
      = (0, None)
   \<and> calculateRMS [Fin 0, Fin 0, Fin 0] = Fin 0
   \<and> calculateDecibels [Fin 0, Fin 0, Fin 0] = NegInf
   \<and> detect_tick \<lparr>decibleThreshold = NegInf\<rparr> 5000000000 0
        \<lparr>bite = [Fin 0, Fin 0, Fin 0], now1 = 70000000000, now2 = 70000000010, now3 = 70000000020\<rparr>
      = (0, None)"
proof -
  have loud: "detect_tick \<lparr>decibleThreshold = Fin 80\<rparr> 5000000000 0
        \<lparr>bite = [Fin 327680000], now1 = 70000000000, now2 = 70000000010, now3 = 70000000020\<rparr>
      = (0, None)"
    using threshold_is_strict [of
        "\<lparr>bite = [Fin 327680000], now1 = 70000000000, now2 = 70000000010, now3 = 70000000020\<rparr>"
        "\<lparr>decibleThreshold = Fin 80\<rparr>" 5000000000 0 NaN]
    by (simp add: decibels_loud)
  have rms: "calculateRMS [Fin 0, Fin 0, Fin 0] = Fin 0"
    using threshold_is_strict [of
        "\<lparr>bite = [Fin 0, Fin 0, Fin 0], now1 = 70000000000, now2 = 70000000010, now3 = 70000000020\<rparr>"
        "\<lparr>decibleThreshold = NegInf\<rparr>" 5000000000 0 NegInf]
    by simp
  have quiet: "calculateDecibels [Fin 0, Fin 0, Fin 0] = NegInf
      \<and> detect_tick \<lparr>decibleThreshold = NegInf\<rparr> 5000000000 0
        \<lparr>bite = [Fin 0, Fin 0, Fin 0], now1 = 70000000000, now2 = 70000000010, now3 = 70000000020\<rparr>
      = (0, None)"
    using threshold_is_strict [of
        "\<lparr>bite = [Fin 0, Fin 0, Fin 0], now1 = 70000000000, now2 = 70000000010, now3 = 70000000020\<rparr>"
        "\<lparr>decibleThreshold = NegInf\<rparr>" 5000000000 0 NegInf]
    unfolding Tick.simps rms by simp
  from loud rms quiet decibels_loud show ?thesis by simp
qed

text \<open>
  C10.  For the empty window the mean is 0/0: \<open>calculateRMS\<close> and \<open>calculateDecibels\<close>
  return NaN, not minus infinity.  NaN exceeds no threshold, so a tick on the empty window
  sends no Detection.
\<close>

theorem empty_window_is_NaN:
  "calculateRMS [] = NaN \<and> calculateDecibels [] = NaN \<and> calculateDecibels [] \<noteq> NegInf
   \<and> \<not> fgt (calculateDecibels []) threshold
   \<and> detect_tick a d lastDetection (tk\<lparr>bite := []\<rparr>) = (lastDetection, None)"
  by (simp add: calculateDecibels_empty detect_tick_def) (simp add: calculateRMS_def)

section \<open>Properties of the clip file name\<close>

lemma is_digits_append: "is_digits (a @ b) \<longleftrightarrow> is_digits a \<and> is_digits b"
  unfolding is_digits_def by (rule list_all_append)

lemma is_digits_digit: "is_digits [digit n]"
proof -
  have "''0123456789'' ! (n mod 10) \<in> set ''0123456789''"
    by (rule nth_mem) simp
  then show ?thesis unfolding is_digits_def digit_def by (simp only: list.pred_inject simp_thms)
qed

lemma is_digits_zeros: "is_digits (replicate k CHR ''0'')"
proof -
  have "CHR ''0'' \<in> set ''0123456789''" by simp
  then show ?thesis unfolding is_digits_def by (induction k) (simp_all only: replicate.simps list.pred_inject simp_thms)
qed

lemma decimal_chars: "is_digits (decimal n)"
proof (induction n rule: decimal.induct)
  case (1 n)
  show ?case
  proof (cases "n < 10")
    case True
    then have "decimal n = [digit n]" by (subst decimal.simps) (simp only: if_True)
    then show ?thesis by (simp only: is_digits_digit)
  next
    case False
    then have "decimal n = decimal (n div 10) @ [digit n]"
      by (subst decimal.simps) (simp only: if_False)
    with 1 [OF False] show ?thesis by (simp only: is_digits_append is_digits_digit simp_thms)
  qed
qed

lemma decimal_length: "n < 10 ^ w \<Longrightarrow> 0 < w \<Longrightarrow> length (decimal n) \<le> w"
proof (induction w arbitrary: n)
  case 0
  then show ?case by simp
next
  case (Suc w)
  show ?case
  proof (cases "n < 10")
    case True
    then have "decimal n = [digit n]" by (subst decimal.simps) (simp only: if_True)
    then show ?thesis by simp
  next
    case False
    then have unfold: "decimal n = decimal (n div 10) @ [digit n]"
      by (subst decimal.simps) (simp only: if_False)
    from False Suc.prems have "0 < w" by (cases w) simp_all
    moreover from Suc.prems have "n div 10 < 10 ^ w"
      by (simp add: less_mult_imp_div_less mult.commute)
    ultimately have "length (decimal (n div 10)) \<le> w" by (intro Suc.IH)
    with unfold show ?thesis by simp
  qed
qed

lemma appendInt_shape:
  assumes "n < 10 ^ w" and "0 < w"
  shows "length (appendInt n w) = w \<and> is_digits (appendInt n w)"
proof -
  from decimal_length [OF assms] have "length (appendInt n w) = w"
    by (simp add: appendInt_def)
  moreover have "is_digits (appendInt n w)"
    unfolding appendInt_def by (simp only: is_digits_append is_digits_zeros decimal_chars simp_thms)
  ultimately show ?thesis by simp
qed

text \<open>
  C8, as the code has it.  The capture loop saves under
  \<open>videos/<timestamp> <stream-name>.avi\<close>: the fixed directory \<open>videos\<close>, then the time
  stamp \<open>YYYY-MM-DD HH-MM-SS\<close> (four digits of year while the year is below 10000, two
  digits for each other field), then a space and the stream name, then \<open>.avi\<close>.  The stream
  name follows the time stamp; it does not precede it.
\<close>

theorem clip_file_name_shape:
  assumes "year t < 10000" and "month t < 100" and "day t < 100"
    and "hour t < 100" and "minute t < 100" and "second t < 100"
  shows "\<exists>y mo d h mi s.
      clip_file nm t = ''videos/'' @ (y @ ''-'' @ mo @ ''-'' @ d @ '' '' @ h @ ''-'' @ mi @ ''-'' @ s)
                        @ '' '' @ nm @ ''.avi''
      \<and> length y = 4 \<and> length mo = 2 \<and> length d = 2
      \<and> length h = 2 \<and> length mi = 2 \<and> length s = 2
      \<and> is_digits y \<and> is_digits mo \<and> is_digits d
      \<and> is_digits h \<and> is_digits mi \<and> is_digits s"
proof -
  have y: "length (appendInt (year t) 4) = 4 \<and> is_digits (appendInt (year t) 4)"
    using assms(1) by (intro appendInt_shape) simp_all
  have two: "length (appendInt n 2) = 2 \<and> is_digits (appendInt n 2)" if "n < 100" for n
    using that by (intro appendInt_shape) simp_all
  have name: "clip_file nm t = ''videos/'' @ (appendInt (year t) 4 @ ''-'' @ appendInt (month t) 2
      @ ''-'' @ appendInt (day t) 2 @ '' '' @ appendInt (hour t) 2 @ ''-''
      @ appendInt (minute t) 2 @ ''-'' @ appendInt (second t) 2) @ '' '' @ nm @ ''.avi''"
    unfolding clip_file_def Format_def by (simp only: append_assoc)
  from name y two [OF assms(2)] two [OF assms(3)] two [OF assms(4)] two [OF assms(5)]
    two [OF assms(6)]
  show ?thesis by blast
qed

theorem clip_file_name_shape_witness:
  "clip_file ''back'' \<lparr>year = 2024, month = 11, day = 30, hour = 23, minute = 59, second = 7\<rparr>
     = ''videos/2024-11-30 23-59-07 back.avi''
   \<and> (\<exists>y mo d h mi s.
      clip_file ''back'' \<lparr>year = 2024, month = 11, day = 30, hour = 23, minute = 59, second = 7\<rparr>
        = ''videos/'' @ (y @ ''-'' @ mo @ ''-'' @ d @ '' '' @ h @ ''-'' @ mi @ ''-'' @ s)
            @ '' '' @ ''back'' @ ''.avi''
      \<and> length y = 4 \<and> length mo = 2 \<and> length d = 2
      \<and> length h = 2 \<and> length mi = 2 \<and> length s = 2
      \<and> is_digits y \<and> is_digits mo \<and> is_digits d
      \<and> is_digits h \<and> is_digits mi \<and> is_digits s)"
proof -
  let ?t = "\<lparr>year = 2024, month = 11, day = 30, hour = 23, minute = 59, second = 7\<rparr>"
  have "year ?t < 10000" "month ?t < 100" "day ?t < 100" "hour ?t < 100" "minute ?t < 100"
    "second ?t < 100"
    by simp_all
  from clip_file_name_shape [OF this, of "''back''"]
  have shape: "\<exists>y mo d h mi s.
      clip_file ''back'' ?t
        = ''videos/'' @ (y @ ''-'' @ mo @ ''-'' @ d @ '' '' @ h @ ''-'' @ mi @ ''-'' @ s)
            @ '' '' @ ''back'' @ ''.avi''
      \<and> length y = 4 \<and> length mo = 2 \<and> length d = 2
      \<and> length h = 2 \<and> length mi = 2 \<and> length s = 2
      \<and> is_digits y \<and> is_digits mo \<and> is_digits d
      \<and> is_digits h \<and> is_digits mi \<and> is_digits s" .
  have concrete: "clip_file ''back'' ?t = ''videos/2024-11-30 23-59-07 back.avi''"
    by (simp add: clip_file_def Format_def appendInt_def decimal.simps digit_def)
  from concrete shape show ?thesis by (rule conjI)
qed


text \<open>
  The name for stream \<open>front\<close> at 2024-01-02 03:04:05 starts with the time stamp, so it is
  not the stream name followed by the time stamp.
\<close>

theorem clip_file_name_order_counterexample:
  "clip_file ''front'' \<lparr>year = 2024, month = 1, day = 2, hour = 3, minute = 4, second = 5\<rparr>
     = ''videos/2024-01-02 03-04-05 front.avi''
   \<and> clip_file ''front'' \<lparr>year = 2024, month = 1, day = 2, hour = 3, minute = 4, second = 5\<rparr>
     \<noteq> ''videos/front 2024-01-02 03-04-05.avi''"
  by (simp add: clip_file_def Format_def appendInt_def decimal.simps digit_def)


section \<open>Properties of the playback loop\<close>

lemma play_pass_uncancelled:
  assumes "\<forall>k. \<not> stop k"
  shows "play_pass stop fs shown = (False, shown @ playable fs)"
  using assms by (induction fs arbitrary: shown) (simp_all add: playable_def)

lemma VideoPlayback_Start_uncancelled:
  assumes "\<forall>k. \<not> stop k" and "d (playback_file v) = Some c"
  shows "VideoPlayback_Start n d stop v shown
    = (StillPlaying, shown @ concat (replicate n (playable (written c))))"
  using assms by (induction n arbitrary: shown) (simp_all add: play_pass_uncancelled)

lemma play_pass_cancelled:
  assumes "\<forall>k < m. \<not> stop k" and "stop m" and "length shown \<le> m"
  shows "play_pass stop fs shown =
    (if m < length shown + length (playable fs)
     then (True, shown @ take (m - length shown) (playable fs))
     else (False, shown @ playable fs))"
  using assms
proof (induction fs arbitrary: shown)
  case Nil
  then show ?case by (simp add: playable_def)
next
  case (Cons f fs)
  show ?case
  proof (cases "f = EmptyMat")
    case True
    with Cons show ?thesis by (simp add: playable_def)
  next
    case False
    show ?thesis
    proof (cases "length shown = m")
      case True
      with False Cons.prems show ?thesis by (simp add: playable_def)
    next
      case neq: False
      with Cons.prems have lt: "length shown < m" by simp
      with Cons.prems have "\<not> stop (length shown)" by simp
      moreover from lt have "length (shown @ [f]) \<le> m" by simp
      note Cons.IH [OF Cons.prems(1,2) this]
      ultimately show ?thesis using False lt
        by (auto simp: playable_def Suc_diff_Suc take_Cons' not_less)
    qed
  qed
qed

lemma VideoPlayback_Start_cancelled:
  assumes "\<forall>k < m. \<not> stop k" and "stop m" and "length shown \<le> m"
    and "d (playback_file v) = Some c"
  shows "VideoPlayback_Start n d stop v shown =
    (if m < length shown + n * length (playable (written c))
     then (Stopped, shown @ take (m - length shown) (concat (replicate n (playable (written c)))))
     else (StillPlaying, shown @ concat (replicate n (playable (written c)))))"
  using assms
proof (induction n arbitrary: shown)
  case 0
  then show ?case by simp
next
  case (Suc n)
  let ?gs = "playable (written c)"
  show ?case
  proof (cases "m < length shown + length ?gs")
    case True
    with Suc.prems show ?thesis
      by (simp add: play_pass_cancelled [OF Suc.prems(1,2,3)])
  next
    case False
    then have "length (shown @ ?gs) \<le> m" by simp
    note IH = Suc.IH [OF Suc.prems(1,2) this Suc.prems(4)]
    from False Suc.prems show ?thesis
      by (simp add: play_pass_cancelled [OF Suc.prems(1,2,3)] IH add.assoc)
  qed
qed

lemma concat_replicate_nth:
  assumes "i < n * length gs"
  shows "concat (replicate n gs) ! i = gs ! (i mod length gs)"
  using assms
proof (induction n arbitrary: i)
  case 0
  then show ?case by simp
next
  case (Suc n)
  show ?case
  proof (cases "i < length gs")
    case True
    then show ?thesis by (simp add: nth_append)
  next
    case False
    with Suc.prems have "i - length gs < n * length gs" by simp
    from Suc.IH [OF this] False show ?thesis
      by (simp add: nth_append le_mod_geq)
  qed
qed

lemma VideoPlayback_Start_opens:
  assumes "d (playback_file v) = Some c"
  shows "fst (VideoPlayback_Start n d stop v shown) \<noteq> OpenFailed"
  using assms by (induction n arbitrary: shown) (auto split: prod.splits bool.splits)

text \<open>
  C7.  Take a playback whose clip is on the disk, and let \<open>K\<close> be the number of non-empty
  frames of the clip.  While no stop signal is observed the playback never returns: after
  \<open>n\<close> passes it is still playing and has handed over \<open>n * K\<close> frames, the \<open>i\<close>-th of
  them being frame \<open>i mod K\<close> of the clip, so the frame after the \<open>K\<close>-th is the first one
  again.  If the stop signal is first observed at the poll that follows \<open>m\<close> hand-offs, the
  playback returns there, having handed over exactly the first \<open>m\<close> frames of that
  sequence.  It returns in no other way: a playback that stopped has seen a stop signal, and
  opening the clip does not fail.
\<close>

theorem playback_repeats_until_cancelled:
  assumes "d (playback_file v) = Some c"
  shows "((\<forall>k. \<not> stop k) \<longrightarrow>
        VideoPlayback_Start n d stop v []
          = (StillPlaying, concat (replicate n (playable (written c))))
        \<and> length (snd (VideoPlayback_Start n d stop v [])) = n * length (playable (written c))
        \<and> (\<forall>i < n * length (playable (written c)).
              snd (VideoPlayback_Start n d stop v []) ! i
                = playable (written c) ! (i mod length (playable (written c)))))
    \<and> ((\<forall>k < m. \<not> stop k) \<and> stop m \<and> m < n * length (playable (written c)) \<longrightarrow>
        VideoPlayback_Start n d stop v []
          = (Stopped, take m (concat (replicate n (playable (written c))))))
    \<and> (fst (VideoPlayback_Start n d stop v []) = Stopped \<longrightarrow> (\<exists>k. stop k))
    \<and> fst (VideoPlayback_Start n d stop v []) \<noteq> OpenFailed"
proof -
  let ?gs = "playable (written c)"
  have cycles: "VideoPlayback_Start n d stop v [] = (StillPlaying, concat (replicate n ?gs))"
    if "\<forall>k. \<not> stop k"
    using that assms
      VideoPlayback_Start_uncancelled [where stop = stop and d = d and v = v and c = c
        and n = n and shown = "[]"]
    by simp
  have count: "length (concat (replicate n ?gs)) = n * length ?gs"
    by (induction n) simp_all
  have wraps: "\<forall>i < n * length ?gs. concat (replicate n ?gs) ! i = ?gs ! (i mod length ?gs)"
    by (simp add: concat_replicate_nth)
  have cancelled: "VideoPlayback_Start n d stop v [] = (Stopped, take m (concat (replicate n ?gs)))"
    if "(\<forall>k < m. \<not> stop k) \<and> stop m \<and> m < n * length ?gs"
    using that VideoPlayback_Start_cancelled [of m stop "[]" d v c n] assms by simp
  have only: "\<exists>k. stop k" if "fst (VideoPlayback_Start n d stop v []) = Stopped"
  proof (rule ccontr)
    assume "\<not> (\<exists>k. stop k)"
    then have "\<forall>k. \<not> stop k" by simp
    from cycles [OF this] that show False by simp
  qed
  have opens: "fst (VideoPlayback_Start n d stop v []) \<noteq> OpenFailed"
    using assms by (rule VideoPlayback_Start_opens [where d = d and v = v and c = c])
  have first: "VideoPlayback_Start n d stop v [] = (StillPlaying, concat (replicate n ?gs))
      \<and> length (snd (VideoPlayback_Start n d stop v [])) = n * length ?gs
      \<and> (\<forall>i < n * length ?gs. snd (VideoPlayback_Start n d stop v []) ! i
            = ?gs ! (i mod length ?gs))"
    if quiet: "\<forall>k. \<not> stop k"
    using count wraps unfolding cycles [OF quiet] snd_conv by simp
  show ?thesis
  proof (intro conjI impI)
    assume "\<forall>k. \<not> stop k"
    from first [OF this]
    show "VideoPlayback_Start n d stop v [] = (StillPlaying, concat (replicate n ?gs))"
      and "length (snd (VideoPlayback_Start n d stop v [])) = n * length ?gs"
      and "\<forall>i < n * length ?gs. snd (VideoPlayback_Start n d stop v []) ! i
            = ?gs ! (i mod length ?gs)"
      by blast+
  next
    assume "(\<forall>k < m. \<not> stop k) \<and> stop m \<and> m < n * length ?gs"
    then show "VideoPlayback_Start n d stop v [] = (Stopped, take m (concat (replicate n ?gs)))"
      by (rule cancelled)
  next
    assume "fst (VideoPlayback_Start n d stop v []) = Stopped"
    then show "\<exists>k. stop k" by (rule only)
  next
    show "fst (VideoPlayback_Start n d stop v []) \<noteq> OpenFailed" by (rule opens)
  qed
qed

theorem playback_repeats_until_cancelled_witness:
  "VideoPlayback_Start 2
      [''videos/clip.avi'' \<mapsto> \<lparr>clip_codec = ''MJPG'', clip_fps = Fin 120, clip_width = 1280,
         clip_height = 720, written = [Frame (1::nat), EmptyMat, Frame 2]\<rparr>]
      (\<lambda>k. False) \<lparr>camName = ''front'', playback_file = ''videos/clip.avi'', fps = Fin 120\<rparr> []
    = (StillPlaying, [Frame 1, Frame 2, Frame 1, Frame 2])
   \<and> VideoPlayback_Start 2
      [''videos/clip.avi'' \<mapsto> \<lparr>clip_codec = ''MJPG'', clip_fps = Fin 120, clip_width = 1280,
         clip_height = 720, written = [Frame (1::nat), EmptyMat, Frame 2]\<rparr>]
      (\<lambda>k. 3 \<le> k) \<lparr>camName = ''front'', playback_file = ''videos/clip.avi'', fps = Fin 120\<rparr> []
    = (Stopped, [Frame 1, Frame 2, Frame 1])"
proof -
  let ?d = "[''videos/clip.avi'' \<mapsto> \<lparr>clip_codec = ''MJPG'', clip_fps = Fin 120,
      clip_width = 1280, clip_height = 720, written = [Frame (1::nat), EmptyMat, Frame 2]\<rparr>]"
  let ?v = "\<lparr>camName = ''front'', playback_file = ''videos/clip.avi'', fps = Fin 120\<rparr>"
  let ?c = "\<lparr>clip_codec = ''MJPG'', clip_fps = Fin 120,
      clip_width = 1280, clip_height = 720, written = [Frame (1::nat), EmptyMat, Frame 2]\<rparr>"
  have clip: "?d (playback_file ?v) = Some ?c" by simp
  have gs: "playable (written ?c) = [Frame 1, Frame 2]" by (simp add: playable_def)
  have two: "concat (replicate 2 [Frame (1::nat), Frame 2]) = [Frame 1, Frame 2, Frame 1, Frame 2]"
    by (simp add: numeral_2_eq_2)
  have a: "VideoPlayback_Start 2 ?d (\<lambda>k. False) ?v [] = (StillPlaying, [Frame 1, Frame 2, Frame 1, Frame 2])"
    using clip playback_repeats_until_cancelled [where d = ?d and v = ?v and c = ?c
        and stop = "\<lambda>k. False" and n = 2 and m = 0]
    unfolding gs two by simp
  have b: "VideoPlayback_Start 2 ?d (\<lambda>k. 3 \<le> k) ?v [] = (Stopped, [Frame 1, Frame 2, Frame 1])"
    using clip playback_repeats_until_cancelled [where d = ?d and v = ?v and c = ?c
        and stop = "\<lambda>k. 3 \<le> k" and n = 2 and m = 3]
    unfolding gs two by (simp add: numeral_3_eq_3)
  from a b show ?thesis by (rule conjI)
qed

section \<open>Properties of the capture loop\<close>







text \<open>
  The condition \<open>reaches_poll\<close> against the playback loop itself: with a stop signal
  waiting from the start, a playback takes it within its first pass exactly when its clip
  is on the disk with a frame that is not empty; on a clip without such a frame it is still
  playing after any number of passes, whatever waits on the channel.
\<close>

lemma play_pass_stop_waiting:
  "play_pass (\<lambda>k. True) fs shown = (playable fs \<noteq> [], shown)"
  by (induction fs arbitrary: shown) (simp_all add: playable_def)

lemma play_pass_nothing_playable:
  "playable fs = [] \<Longrightarrow> play_pass stop fs shown = (False, shown)"
  by (induction fs arbitrary: shown) (simp_all add: playable_def split: if_splits)

lemma reaches_poll_takes_stop:
  "reaches_poll d p \<longleftrightarrow> fst (VideoPlayback_Start 1 d (\<lambda>k. True) p shown) = Stopped"
  by (auto simp: reaches_poll_def play_pass_stop_waiting split: option.splits bool.splits)

lemma no_poll_never_stops:
  assumes "d (playback_file p) = Some c" and "playable (written c) = []"
  shows "VideoPlayback_Start n d stop p shown = (StillPlaying, shown)"
  using assms by (induction n) (simp_all add: play_pass_nothing_playable)





end
